theory Spec2Isabelle
  imports Complex_Main "HOL-Library.Multiset" "HOL-Library.AList"
begin

section \<open>The optimizer and its load planner\<close>

text \<open>
  The class \<open>EcoShipmentOptimizer\<close> of \<open>src/main.py\<close> has one field, the route graph.
  An edge of the graph carries the three attributes that \<open>add_route\<close> stores; the graph is
  the table of its edges, keyed by (source, target), in insertion order.
\<close>

record route =
  distance :: rat
  emission :: rat
  cost :: rat

type_synonym 'n digraph = "(('n \<times> 'n) \<times> route) list"

record 'n EcoShipmentOptimizer =
  graph :: "'n digraph"

text \<open>\<open>__init__\<close>: the graph of a new optimizer has no node and no edge.\<close>

definition init :: "'n EcoShipmentOptimizer" where
  "init = \<lparr>graph = []\<rparr>"

text \<open>
  \<open>optimize_load\<close>, lines 55 to 75. The \<open>for\<close> loop runs over the sorted demands with the
  two local lists \<open>load_plans\<close> and \<open>current_vehicle_load\<close>; \<open>load_loop\<close> is that loop, and
  returns both lists as they are when the loop ends. \<open>sorted(demands, reverse=True)\<close> is
  the ascending sort reversed. The method reads and writes nothing of \<open>self\<close>: it returns
  the object as it got it, next to the plans.
\<close>

fun load_loop :: "'a::linordered_idom \<Rightarrow> 'a list \<Rightarrow> 'a list list \<Rightarrow> 'a list
    \<Rightarrow> 'a list list \<times> 'a list" where
  "load_loop vehicle_capacity [] load_plans current_vehicle_load =
     (load_plans, current_vehicle_load)"
| "load_loop vehicle_capacity (demand # demands) load_plans current_vehicle_load =
     (if sum_list current_vehicle_load + demand \<le> vehicle_capacity
      then load_loop vehicle_capacity demands load_plans (current_vehicle_load @ [demand])
      else load_loop vehicle_capacity demands (load_plans @ [current_vehicle_load]) [demand])"

definition sorted_reverse :: "'a::linorder list \<Rightarrow> 'a list" where
  "sorted_reverse xs = rev (sort xs)"

definition optimize_load :: "'n EcoShipmentOptimizer \<Rightarrow> 'a::linordered_idom list \<Rightarrow> 'a
    \<Rightarrow> 'a list list \<times> 'n EcoShipmentOptimizer" where
  "optimize_load self demands vehicle_capacity =
     (case load_loop vehicle_capacity (sorted_reverse demands) [] [] of
        (load_plans, current_vehicle_load) \<Rightarrow>
          (if current_vehicle_load \<noteq> [] then load_plans @ [current_vehicle_load]
           else load_plans, self))"

section \<open>The route graph and the path queries\<close>

subsection \<open>The graph library\<close>

text \<open>
  The class keeps an \<open>nx.DiGraph\<close> and calls \<open>add_edge\<close>, \<open>shortest_path\<close> and
  \<open>shortest_path_length\<close> of the networkx library, which is not part of the repository.
  The definitions of this subsection stand for the library. They follow sections 4.1, 4.2
  and 9 of the specification: a directed graph in which the last write of an edge wins,
  and Dijkstra's algorithm over it. Weights are exact rationals; the rounding of Python's
  floating-point numbers is outside the model.
\<close>

text \<open>
  Modelled from the spec: the exceptions of the library's path functions. \<open>NetworkXNoPath\<close>
  is the one the source names in its \<open>except\<close> clauses; \<open>NodeNotFound\<close> is what the
  library documents for an endpoint that is not a node of the graph; \<open>ValueError\<close> is what
  its search raises when it meets contradictory paths, which only negative weights produce.
\<close>

datatype nx_error = NetworkXNoPath | NodeNotFound | ValueError

text \<open>
  Modelled from the spec: \<open>DiGraph.add_edge\<close>, which inserts the edge or overwrites its
  attributes in place (section 4.1: no duplicate edges, last write wins).
\<close>

definition add_edge :: "'n digraph \<Rightarrow> 'n \<Rightarrow> 'n \<Rightarrow> route \<Rightarrow> 'n digraph" where
  "add_edge G u v attr = AList.update (u, v) attr G"

text \<open>
  Modelled from the spec: a node enters the graph once. The class adds nodes through
  \<open>add_edge\<close> only, so the nodes are the endpoints of the edges, in the order in which
  they first occur.
\<close>

definition add_node :: "'n list \<Rightarrow> 'n \<Rightarrow> 'n list" where
  "add_node ns n = (if n \<in> set ns then ns else ns @ [n])"

text \<open>
  Modelled from the spec: the node list of the graph, each edge adding its source and then
  its target.
\<close>

definition nodes :: "'n digraph \<Rightarrow> 'n list" where
  "nodes G = fold (\<lambda>((u, v), attr) ns. add_node (add_node ns u) v) G []"

text \<open>
  Modelled from the spec: the weight of the edge from \<open>u\<close> to \<open>v\<close> under the chosen
  attribute (\<open>weight='emission'\<close> or \<open>weight='cost'\<close> in the source), if there is
  such an edge.
\<close>

definition edge_weight :: "'n digraph \<Rightarrow> (route \<Rightarrow> rat) \<Rightarrow> 'n \<Rightarrow> 'n \<Rightarrow> rat option" where
  "edge_weight G weight u v = map_option weight (map_of G (u, v))"

text \<open>The table of the reached nodes: tentative total weight and path, by node.\<close>

type_synonym 'n seen = "'n \<rightharpoonup> rat \<times> 'n list"

text \<open>
  Modelled from the spec: Dijkstra's algorithm (sections 4.2 and 9). \<open>seen\<close> maps a
  reached node to its tentative total weight and the path that has it; \<open>final\<close> holds the
  nodes whose weight is settled. A step takes the reached, unsettled node of least
  tentative weight, stops if it is the target, and otherwise settles it and relaxes its
  outgoing edges. A tentative weight is replaced only by a strictly smaller one.
  The tie-break rule: among nodes of equal tentative weight the one that entered the graph
  first is taken. The search fails with \<open>NetworkXNoPath\<close> when no reached node is left.
  \<open>relax_entry\<close> is the new entry of \<open>u\<close> when the edge from \<open>v\<close>, settled at weight \<open>d\<close>
  by the path \<open>p\<close>, is relaxed.
\<close>

definition relax_entry :: "('n \<Rightarrow> 'n \<Rightarrow> rat option) \<Rightarrow> 'n set \<Rightarrow> 'n \<Rightarrow> rat \<Rightarrow> 'n list \<Rightarrow> 'n
    \<Rightarrow> (rat \<times> 'n list) option \<Rightarrow> (rat \<times> 'n list) option" where
  "relax_entry w final v d p u old =
     (case w v u of
        None \<Rightarrow> old
      | Some c \<Rightarrow>
          if u \<in> final then old
          else (case old of
                  None \<Rightarrow> Some (d + c, p @ [u])
                | Some (du, pu) \<Rightarrow> if d + c < du then Some (d + c, p @ [u]) else old))"

text \<open>
  Modelled from the spec: relaxing the edge from the settled node \<open>v\<close> to \<open>u\<close> updates
  the entry of \<open>u\<close> and no other.
\<close>

definition relax :: "('n \<Rightarrow> 'n \<Rightarrow> rat option) \<Rightarrow> 'n set \<Rightarrow> 'n \<Rightarrow> rat \<Rightarrow> 'n list \<Rightarrow> 'n
    \<Rightarrow> 'n seen \<Rightarrow> 'n seen" where
  "relax w final v d p u seen = seen(u := relax_entry w final v d p u (seen u))"

text \<open>
  Modelled from the spec: the reached nodes that are not settled, with their entries, in
  the order of the node list.
\<close>

definition fringe :: "'n list \<Rightarrow> 'n set \<Rightarrow> 'n seen \<Rightarrow> ('n \<times> rat \<times> 'n list) list" where
  "fringe vs final seen =
     List.map_filter (\<lambda>v. if v \<in> final then None else map_option (Pair v) (seen v)) vs"

lemma fringe_set:
  "(v, d, p) \<in> set (fringe vs final seen)
   \<longleftrightarrow> v \<in> set vs \<and> v \<notin> final \<and> seen v = Some (d, p)"
  by (induction vs)
    (auto simp: fringe_def List.map_filter_simps split: if_splits option.splits)

lemma filter_insert_less:
  "v \<in> set vs \<Longrightarrow> v \<notin> D
   \<Longrightarrow> length (filter (\<lambda>x. x \<notin> insert v D) vs) < length (filter (\<lambda>x. x \<notin> D) vs)"
proof (induction vs)
  case Nil
  then show ?case by simp
next
  case (Cons a vs)
  have le: "length (filter (\<lambda>x. x \<notin> insert v D) vs) \<le> length (filter (\<lambda>x. x \<notin> D) vs)"
    by (induction vs) auto
  show ?case
  proof (cases "a = v")
    case True
    with Cons.prems le show ?thesis by simp
  next
    case False
    with Cons show ?thesis by auto
  qed
qed

text \<open>
  Modelled from the spec: the check that the search makes on each edge out of the node \<open>v\<close>
  that it has just settled at weight \<open>d\<close>. An edge to a settled node, \<open>v\<close> itself
  included, that would give that node a smaller weight than its settled one is a
  contradiction: the library raises \<open>ValueError\<close> ("Contradictory paths found: negative
  weights?").
\<close>

definition contradictory :: "('n \<Rightarrow> 'n \<Rightarrow> rat option) \<Rightarrow> 'n list \<Rightarrow> 'n set \<Rightarrow> 'n \<Rightarrow> rat
    \<Rightarrow> 'n seen \<Rightarrow> bool" where
  "contradictory w vs final v d seen =
     list_ex (\<lambda>u. case w v u of
                   None \<Rightarrow> False
                 | Some c \<Rightarrow>
                     u \<in> final \<and> (case seen u of None \<Rightarrow> False | Some (du, pu) \<Rightarrow> d + c < du))
       vs"

text \<open>
  Modelled from the spec: the loop of the search. Each step settles one more node of the
  graph, so the loop ends. On a graph without negative weights the loop is Dijkstra's
  algorithm; with negative weights it fails with \<open>ValueError\<close> at the first contradiction,
  and what it returns otherwise need not be minimal. The library searches for the path from
  both ends and for the length from the source; with weights that are not negative both
  find a minimum, as this loop does, and the general theorems below are about such graphs.
\<close>

function dijkstra_loop :: "('n \<Rightarrow> 'n \<Rightarrow> rat option) \<Rightarrow> 'n list \<Rightarrow> 'n \<Rightarrow> 'n set \<Rightarrow> 'n seen
    \<Rightarrow> nx_error + 'n list \<times> rat" where
  "dijkstra_loop w vs target final seen =
     (if fringe vs final seen = [] then Inl NetworkXNoPath
      else (case arg_min_list (\<lambda>(v, d, p). d) (fringe vs final seen) of
              (v, d, p) \<Rightarrow>
                if v = target then Inr (p, d)
                else if contradictory w vs (insert v final) v d seen then Inl ValueError
                else dijkstra_loop w vs target (insert v final)
                       (fold (relax w (insert v final) v d p) vs seen)))"
  by pat_completeness auto
termination
  apply (relation "measure (\<lambda>(w, vs, target, final, seen). length (filter (\<lambda>x. x \<notin> final) vs))")
   apply simp
  apply (simp del: insert_iff)
  subgoal for w vs target final seen v y d p
    using arg_min_list_in [of "fringe vs final seen" "\<lambda>(v, d, p). d"]
      fringe_set [of v d p vs final seen]
    by (auto simp del: insert_iff intro!: filter_insert_less)
  done

declare dijkstra_loop.simps [simp del]

text \<open>
  Modelled from the spec: the search from \<open>source\<close> to \<open>target\<close>. An endpoint that is not a
  node of the graph is refused with \<open>NodeNotFound\<close>, as the library documents; otherwise
  the search starts with the source reached at weight 0.
\<close>

definition dijkstra :: "'n digraph \<Rightarrow> 'n \<Rightarrow> 'n \<Rightarrow> (route \<Rightarrow> rat)
    \<Rightarrow> nx_error + 'n list \<times> rat" where
  "dijkstra G source target weight =
     (if source \<notin> set (nodes G) \<or> target \<notin> set (nodes G) then Inl NodeNotFound
      else dijkstra_loop (edge_weight G weight) (nodes G) target {}
             [source \<mapsto> (0, [source])])"

text \<open>
  Modelled from the spec: \<open>nx.shortest_path\<close>, the path of least total weight from
  \<open>source\<close> to \<open>target\<close>.
\<close>

definition shortest_path :: "'n digraph \<Rightarrow> 'n \<Rightarrow> 'n \<Rightarrow> (route \<Rightarrow> rat)
    \<Rightarrow> nx_error + 'n list" where
  "shortest_path G source target weight =
     (case dijkstra G source target weight of
        Inl e \<Rightarrow> Inl e
      | Inr (path, len) \<Rightarrow> Inr path)"

text \<open>
  Modelled from the spec: \<open>nx.shortest_path_length\<close>, the total weight of that path.
\<close>

definition shortest_path_length :: "'n digraph \<Rightarrow> 'n \<Rightarrow> 'n \<Rightarrow> (route \<Rightarrow> rat)
    \<Rightarrow> nx_error + rat" where
  "shortest_path_length G source target weight =
     (case dijkstra G source target weight of
        Inl e \<Rightarrow> Inl e
      | Inr (path, len) \<Rightarrow> Inr len)"

subsection \<open>The methods of the class\<close>

text \<open>
  \<open>add_route\<close>, lines 20 to 29: the edge gets the distance, and the emission and the cost
  of the whole route.
\<close>

definition add_route :: "'n EcoShipmentOptimizer \<Rightarrow> 'n \<Rightarrow> 'n \<Rightarrow> rat \<Rightarrow> rat \<Rightarrow> rat
    \<Rightarrow> 'n EcoShipmentOptimizer" where
  "add_route self source target distance' emission_factor cost' =
     self\<lparr>graph := add_edge (graph self) source target
       \<lparr>distance = distance', emission = emission_factor * distance',
        cost = cost' * distance'\<rparr>\<rparr>"

text \<open>
  A query returns a path and a total, which is a number or \<open>float('inf')\<close>. The clause
  \<open>except nx.NetworkXNoPath\<close> turns that one exception into the pair of the empty path and
  infinity; any other exception leaves the method.
\<close>

datatype total = Finite rat | Infinity

definition except_no_path :: "nx_error \<Rightarrow> nx_error + 'n list \<times> total" where
  "except_no_path e = (case e of NetworkXNoPath \<Rightarrow> Inr ([], Infinity) | _ \<Rightarrow> Inl e)"

text \<open>
  \<open>calculate_min_emission_path\<close>, lines 31 to 41, and \<open>calculate_min_cost_path\<close>, lines 43
  to 53: both library calls are inside the \<open>try\<close>. The methods do not assign to
  \<open>self.graph\<close>; they return the object as they got it, next to the result.
\<close>

definition calculate_min_emission_path :: "'n EcoShipmentOptimizer \<Rightarrow> 'n \<Rightarrow> 'n
    \<Rightarrow> (nx_error + 'n list \<times> total) \<times> 'n EcoShipmentOptimizer" where
  "calculate_min_emission_path self source target =
     (case shortest_path (graph self) source target emission of
        Inl e \<Rightarrow> (except_no_path e, self)
      | Inr path \<Rightarrow>
          (case shortest_path_length (graph self) source target emission of
             Inl e \<Rightarrow> (except_no_path e, self)
           | Inr emission' \<Rightarrow> (Inr (path, Finite emission'), self)))"

definition calculate_min_cost_path :: "'n EcoShipmentOptimizer \<Rightarrow> 'n \<Rightarrow> 'n
    \<Rightarrow> (nx_error + 'n list \<times> total) \<times> 'n EcoShipmentOptimizer" where
  "calculate_min_cost_path self source target =
     (case shortest_path (graph self) source target cost of
        Inl e \<Rightarrow> (except_no_path e, self)
      | Inr path \<Rightarrow>
          (case shortest_path_length (graph self) source target cost of
             Inl e \<Rightarrow> (except_no_path e, self)
           | Inr cost' \<Rightarrow> (Inr (path, Finite cost'), self)))"

text \<open>The four routes that \<open>main\<close> adds, lines 82 to 85.\<close>

definition main_routes :: "string EcoShipmentOptimizer" where
  "main_routes =
     add_route (add_route (add_route (add_route init
       ''A'' ''B'' 100 (1 / 10) 1)
       ''B'' ''C'' 50 (2 / 10) (5 / 10))
       ''A'' ''C'' 140 (15 / 100) (85 / 100))
       ''C'' ''D'' 60 (18 / 100) (9 / 10)"

text \<open>
  Two graphs with a negative emission factor, which \<open>add_route\<close> accepts as it accepts any
  number: a route from D to A and a loop at A that emits -1; and a direct route from A to D
  that emits 1 beside a detour over B and C that emits 5 - 10 + 5 = 0.
\<close>

definition loop_routes :: "string EcoShipmentOptimizer" where
  "loop_routes = add_route (add_route init ''D'' ''A'' 1 1 1) ''A'' ''A'' 1 (- 1) 1"

definition detour_routes :: "string EcoShipmentOptimizer" where
  "detour_routes =
     add_route (add_route (add_route (add_route init
       ''A'' ''D'' 1 1 1)
       ''A'' ''B'' 1 5 1)
       ''B'' ''C'' 1 (- 10) 1)
       ''C'' ''D'' 1 5 1"

subsection \<open>Paths, and what the search maintains\<close>

text \<open>
  The vocabulary of the claims about the queries. A path is a non-empty list of nodes of
  the graph in which each node has an edge to the next; a node may occur more than once.
  The weight of a path is the sum of the weights of its edges under the chosen attribute.
\<close>

fun is_path :: "'n digraph \<Rightarrow> 'n list \<Rightarrow> bool" where
  "is_path G [] = False"
| "is_path G [v] = (v \<in> set (nodes G))"
| "is_path G (u # v # p) = (map_of G (u, v) \<noteq> None \<and> is_path G (v # p))"

fun path_weight :: "'n digraph \<Rightarrow> (route \<Rightarrow> rat) \<Rightarrow> 'n list \<Rightarrow> rat" where
  "path_weight G weight (u # v # p) =
     (case edge_weight G weight u v of None \<Rightarrow> 0 | Some c \<Rightarrow> c) + path_weight G weight (v # p)"
| "path_weight G weight p = 0"

definition path_from_to :: "'n digraph \<Rightarrow> 'n \<Rightarrow> 'n \<Rightarrow> 'n list \<Rightarrow> bool" where
  "path_from_to G source target p = (is_path G p \<and> hd p = source \<and> last p = target)"

definition reachable :: "'n digraph \<Rightarrow> 'n \<Rightarrow> 'n \<Rightarrow> bool" where
  "reachable G source target = (\<exists>p. path_from_to G source target p)"

text \<open>
  Section 3 of the specification asks for a positive distance and non-negative factors, so
  that the emission and the cost of a well-formed edge are not negative.
\<close>

definition nonneg_weights :: "'n digraph \<Rightarrow> (route \<Rightarrow> rat) \<Rightarrow> bool" where
  "nonneg_weights G weight = list_all (\<lambda>(k, attr). 0 \<le> weight attr) G"

text \<open>
  The invariant of the search from \<open>source\<close>: every tentative entry is a path from the
  source with the recorded weight, the source is reached, and every settled node is reached
  together with all its successors.
\<close>

definition search_inv :: "'n digraph \<Rightarrow> (route \<Rightarrow> rat) \<Rightarrow> 'n \<Rightarrow> 'n set \<Rightarrow> 'n seen \<Rightarrow> bool" where
  "search_inv G weight source final seen \<longleftrightarrow>
     (\<forall>u d p. seen u = Some (d, p)
        \<longrightarrow> path_from_to G source u p \<and> path_weight G weight p = d)
     \<and> seen source \<noteq> None
     \<and> (\<forall>x\<in>final. seen x \<noteq> None \<and> (\<forall>y. map_of G (x, y) \<noteq> None \<longrightarrow> seen y \<noteq> None))"

text \<open>
  With weights that are not negative the search maintains more: the source is at weight 0 or
  less, the weight of a settled node is a lower bound of every path to it, and each edge out
  of a settled node has been relaxed.
\<close>

definition search_opt :: "'n digraph \<Rightarrow> (route \<Rightarrow> rat) \<Rightarrow> 'n \<Rightarrow> 'n set \<Rightarrow> 'n seen \<Rightarrow> bool" where
  "search_opt G weight source final seen \<longleftrightarrow>
     (\<exists>d p. seen source = Some (d, p) \<and> d \<le> 0)
     \<and> (\<forall>x\<in>final. \<forall>d p q. seen x = Some (d, p) \<longrightarrow> path_from_to G source x q
          \<longrightarrow> d \<le> path_weight G weight q)
     \<and> (\<forall>x\<in>final. \<forall>y dx px c. seen x = Some (dx, px) \<longrightarrow> edge_weight G weight x y = Some c
          \<longrightarrow> (\<exists>dy py. seen y = Some (dy, py) \<and> dy \<le> dx + c))"

text \<open>
  What a query returns for a result of the search: the two library calls of a method see
  the same graph, so they agree, and \<open>NetworkXNoPath\<close> becomes the pair of the empty path
  and infinity.
\<close>

definition query_result :: "nx_error + 'n list \<times> rat \<Rightarrow> nx_error + 'n list \<times> total" where
  "query_result r = (case r of Inl e \<Rightarrow> except_no_path e | Inr (p, d) \<Rightarrow> Inr (p, Finite d))"

section \<open>The optimizer as an object on the heap\<close>

text \<open>
  In Python the optimizer, its graph and every list are objects that are reached through
  references and changed in place: \<open>add_edge\<close> changes the graph object, \<open>append\<close> changes a
  list object, and \<open>load_plans\<close> holds references to the lists that were the current load.
  This section has the methods once more, on a heap of such objects, so that what a method
  leaves alone is a statement about the heap and not a matter of how the function is
  written. An address is a position in the heap; a new object goes to the end.
\<close>

type_synonym addr = nat

datatype ('n, 'a) pyobj =
    OptimizerObj addr
  | DiGraphObj "'n digraph"
  | NumberList "'a list"
  | PlanList "addr list"
  | NodeList "'n list"

type_synonym ('n, 'a) heap = "('n, 'a) pyobj list"


text \<open>
  A new object: the address of the object and the heap that holds it.
\<close>

definition new :: "('n, 'a) heap \<Rightarrow> ('n, 'a) pyobj \<Rightarrow> addr \<times> ('n, 'a) heap" where
  "new h obj = (length h, h @ [obj])"







text \<open>
  Every object of the heap \<open>h\<close> is in \<open>h'\<close> at its address, as it was.
\<close>

definition unchanged :: "('n, 'a) heap \<Rightarrow> ('n, 'a) heap \<Rightarrow> bool" where
  "unchanged h h' = (take (length h) h' = h)"

text \<open>
  \<open>__init__\<close>, line 18: a new graph object and a new optimizer that refers to it.
\<close>

definition init_heap :: "('n, 'a) heap \<Rightarrow> addr \<times> ('n, 'a) heap" where
  "init_heap h =
     (case new h (DiGraphObj []) of
        (g, h1) \<Rightarrow> new h1 (OptimizerObj g))"
















section \<open>Properties of the load planner\<close>

lemma load_loop_concat:
  "load_loop c ds plans cur = (plans', cur')
   \<Longrightarrow> concat plans' @ cur' = concat plans @ cur @ ds"
  by (induction ds arbitrary: plans cur) (auto split: if_splits)

lemma optimize_load_concat: "concat (fst (optimize_load self ds c)) = sorted_reverse ds"
proof -
  obtain plans cur where l: "load_loop c (sorted_reverse ds) [] [] = (plans, cur)"
    by (cases "load_loop c (sorted_reverse ds) [] []")
  from load_loop_concat [OF l] have "concat plans @ cur = sorted_reverse ds"
    by simp
  with l show ?thesis
    by (cases "cur = []") (simp_all add: optimize_load_def)
qed

text \<open>A plan is acceptable when it fits, or is one demand that is itself too large.\<close>

definition plan_ok :: "'a::linordered_idom \<Rightarrow> 'a list \<Rightarrow> bool" where
  "plan_ok c p = (sum_list p \<le> c \<or> (case p of [d] \<Rightarrow> c < d | _ \<Rightarrow> False))"

lemma plan_ok_single: "plan_ok c [d]"
  by (auto simp: plan_ok_def)

lemma load_loop_plan_ok:
  "load_loop c ds plans cur = (plans', cur') \<Longrightarrow> list_all (plan_ok c) plans
   \<Longrightarrow> plan_ok c cur \<Longrightarrow> list_all (plan_ok c) plans' \<and> plan_ok c cur'"
proof (induction ds arbitrary: plans cur)
  case Nil
  then show ?case by simp
next
  case (Cons d ds)
  show ?case
  proof (cases "sum_list cur + d \<le> c")
    case True
    then have "plan_ok c (cur @ [d])"
      by (simp add: plan_ok_def)
    with Cons True show ?thesis by simp
  next
    case False
    with Cons.prems have "load_loop c ds (plans @ [cur]) [d] = (plans', cur')"
      by simp
    moreover from Cons.prems have "list_all (plan_ok c) (plans @ [cur])"
      by simp
    ultimately show ?thesis
      using Cons.IH plan_ok_single by blast
  qed
qed

lemma optimize_load_plan_ok:
  assumes "0 \<le> c"
  shows "list_all (plan_ok c) (fst (optimize_load self ds c))"
proof -
  obtain plans cur where l: "load_loop c (sorted_reverse ds) [] [] = (plans, cur)"
    by (cases "load_loop c (sorted_reverse ds) [] []")
  from assms have "plan_ok c []"
    by (simp add: plan_ok_def)
  with load_loop_plan_ok [OF l] have "list_all (plan_ok c) plans \<and> plan_ok c cur"
    by simp
  with l show ?thesis
    by (cases "cur = []") (simp_all add: optimize_load_def)
qed

lemma sorted_reverse_mset_unique:
  assumes "mset xs = mset ys"
  shows "sorted_reverse xs = sorted_reverse ys"
proof -
  from assms have "sort xs = sort ys"
    by (metis properties_for_sort sorted_sort mset_sort)
  then show ?thesis
    by (simp add: sorted_reverse_def)
qed

text \<open>
  C2. The claim: for demands \<open>[120]\<close> and capacity 100 the planner returns the one plan
  \<open>[[120]]\<close>. The code returns two plans: the first demand does not fit the empty current
  load, so the \<open>else\<close> branch appends that empty load to \<open>load_plans\<close> before it starts
  the load \<open>[120]\<close>. This theorem is the run of the code on that input.
\<close>

theorem optimize_load_single_over_capacity:
  "fst (optimize_load (init :: string EcoShipmentOptimizer) [120 :: int] 100) = [[], [120]]"
  by (simp add: optimize_load_def sorted_reverse_def)

text \<open>
  C3. For a capacity \<open>C > 0\<close> and a non-empty demand list, every plan the planner emits
  has a sum of at most \<open>C\<close>, unless it is a plan of one demand that itself exceeds \<open>C\<close>.
\<close>

theorem optimize_load_within_capacity:
  assumes "0 < C" and "D \<noteq> []" and "P \<in> set (fst (optimize_load self D C))"
  shows "sum_list P \<le> C \<or> (\<exists>d. P = [d] \<and> C < d \<and> d \<in> set D)"
proof -
  from assms(1) have "list_all (plan_ok C) (fst (optimize_load self D C))"
    by (simp add: optimize_load_plan_ok)
  with assms(3) have ok: "plan_ok C P"
    by (simp add: list_all_iff)
  from assms(3) have "set P \<subseteq> set (concat (fst (optimize_load self D C)))"
    by auto
  then have sub: "set P \<subseteq> set D"
    by (simp add: optimize_load_concat sorted_reverse_def)
  show ?thesis
  proof (cases "sum_list P \<le> C")
    case True
    then show ?thesis by simp
  next
    case False
    with ok obtain d where "P = [d]" and "C < d"
      by (auto simp: plan_ok_def split: list.splits)
    with sub show ?thesis by simp
  qed
qed

theorem optimize_load_within_capacity_witness:
  "(0 :: int) < 100 \<and> [30, 40, 20, 50, 30 :: int] \<noteq> []
   \<and> [50, 40] \<in> set (fst (optimize_load (init :: string EcoShipmentOptimizer)
        [30, 40, 20, 50, 30 :: int] 100))
   \<and> (sum_list [50, 40 :: int] \<le> 100
      \<or> (\<exists>d. [50, 40 :: int] = [d] \<and> 100 < d \<and> d \<in> set [30, 40, 20, 50, 30]))"
proof -
  have mem: "[50, 40] \<in> set (fst (optimize_load (init :: string EcoShipmentOptimizer)
      [30, 40, 20, 50, 30 :: int] 100))"
    by (simp add: optimize_load_def sorted_reverse_def)
  from optimize_load_within_capacity [OF _ _ mem] mem show ?thesis
    by simp
qed

text \<open>
  C4. The demands of all the plans together are the input demands, as a multiset: none is
  lost and none is duplicated. This holds for every capacity.
\<close>

theorem optimize_load_mset:
  "mset (concat (fst (optimize_load self D C))) = mset D"
  by (simp add: optimize_load_concat sorted_reverse_def)

text \<open>
  C7. For the demands 50, 40, 30, 30, 20 in any order and capacity 100 the planner returns
  the plans \<open>[[50, 40], [30, 30, 20]]\<close>, in that order.
\<close>

theorem optimize_load_scenario:
  assumes "mset D = mset [50, 40, 30, 30, 20 :: int]"
  shows "fst (optimize_load self D 100) = [[50, 40], [30, 30, 20]]"
proof -
  from assms have "sorted_reverse D = sorted_reverse [50, 40, 30, 30, 20]"
    by (rule sorted_reverse_mset_unique)
  then have "sorted_reverse D = [50, 40, 30, 30, 20]"
    by (simp add: sorted_reverse_def)
  then show ?thesis
    by (simp add: optimize_load_def)
qed

theorem optimize_load_scenario_witness:
  "mset [30, 40, 20, 50, 30 :: int] = mset [50, 40, 30, 30, 20]
   \<and> fst (optimize_load (init :: string EcoShipmentOptimizer) [30, 40, 20, 50, 30 :: int] 100)
      = [[50, 40], [30, 30, 20]]"
proof -
  have m: "mset [30, 40, 20, 50, 30 :: int] = mset [50, 40, 30, 30, 20]"
    by (simp add: add_mset_commute)
  from m optimize_load_scenario [OF m] show ?thesis
    by blast
qed

text \<open>
  C9. For the empty demand list the planner returns no plan at all, whatever the capacity:
  the empty current load is not emitted.
\<close>

theorem optimize_load_empty: "fst (optimize_load self [] C) = []"
  by (simp add: optimize_load_def sorted_reverse_def)

text \<open>
  C10. The plans, concatenated in order, are the demands sorted in descending order; so
  the demands do not increase within a plan nor from a plan to the next.
\<close>

theorem optimize_load_concat_sorted:
  "concat (fst (optimize_load self D C)) = rev (sort D)
   \<and> sorted (rev (concat (fst (optimize_load self D C))))"
  by (simp add: optimize_load_concat sorted_reverse_def)

section \<open>Properties of the path queries\<close>

subsection \<open>Nodes and edges\<close>

lemma set_add_node: "set (add_node ns n) = insert n (set ns)"
  by (auto simp: add_node_def)

lemma set_fold_add_node:
  "set (fold (\<lambda>((u, v), attr) ns. add_node (add_node ns u) v) G ns)
   = set ns \<union> (fst \<circ> fst) ` set G \<union> (snd \<circ> fst) ` set G"
  by (induction G arbitrary: ns) (auto simp: set_add_node)

lemma set_nodes: "set (nodes G) = (fst \<circ> fst) ` set G \<union> (snd \<circ> fst) ` set G"
  by (simp add: nodes_def set_fold_add_node)

lemma edge_nodes:
  assumes "map_of G (u, v) = Some e"
  shows "u \<in> set (nodes G)" and "v \<in> set (nodes G)"
proof -
  from assms have "((u, v), e) \<in> set G"
    by (rule map_of_SomeD)
  then show "u \<in> set (nodes G)" and "v \<in> set (nodes G)"
    by (force simp: set_nodes)+
qed

lemma edge_weight_Some:
  "edge_weight G weight u v = Some c \<longleftrightarrow> (\<exists>e. map_of G (u, v) = Some e \<and> c = weight e)"
  by (auto simp: edge_weight_def)

lemma edge_weight_None: "edge_weight G weight u v = None \<longleftrightarrow> map_of G (u, v) = None"
  by (simp add: edge_weight_def)

lemma nonneg_edge:
  assumes "nonneg_weights G weight" and "edge_weight G weight u v = Some c"
  shows "0 \<le> c"
proof -
  from assms(2) obtain e where "map_of G (u, v) = Some e" and c: "c = weight e"
    by (auto simp: edge_weight_Some)
  then have "((u, v), e) \<in> set G"
    by (simp add: map_of_SomeD)
  with assms(1) c show ?thesis
    by (auto simp: nonneg_weights_def list_all_iff)
qed

lemma list_all_update:
  "P (k, v) \<Longrightarrow> list_all P al \<Longrightarrow> list_all P (AList.update k v al)"
  by (induction al) auto

text \<open>
  A graph that is built with \<open>add_route\<close> from distances and factors that are not
  negative has no negative emission and no negative cost.
\<close>

lemma init_nonneg_weights: "nonneg_weights (graph init) weight"
  by (simp add: nonneg_weights_def init_def)

lemma add_route_nonneg_weights:
  assumes "0 \<le> d" and "0 \<le> ef" and "0 \<le> c"
    and "nonneg_weights (graph self) emission" and "nonneg_weights (graph self) cost"
  shows "nonneg_weights (graph (add_route self s t d ef c)) emission"
    and "nonneg_weights (graph (add_route self s t d ef c)) cost"
  using assms by (simp_all add: nonneg_weights_def add_route_def add_edge_def list_all_update)

subsection \<open>Paths\<close>

lemma is_path_nodes: "is_path G p \<Longrightarrow> set p \<subseteq> set (nodes G)"
  by (induction G p rule: is_path.induct) (auto dest: edge_nodes)

lemma is_path_snoc:
  "is_path G p \<Longrightarrow> map_of G (last p, u) \<noteq> None \<Longrightarrow> is_path G (p @ [u])"
  by (induction G p rule: is_path.induct) (auto dest: edge_nodes)

lemma path_weight_snoc:
  "p \<noteq> [] \<Longrightarrow> path_weight G weight (p @ [u])
     = path_weight G weight p + (case edge_weight G weight (last p) u of None \<Rightarrow> 0 | Some c \<Rightarrow> c)"
  by (induction G weight p rule: path_weight.induct) auto

lemma is_path_append:
  "is_path G (q1 @ y # q2) \<Longrightarrow> is_path G (y # q2)"
  by (induction G q1 rule: is_path.induct) (auto split: list.splits)

lemma path_weight_nonneg:
  "nonneg_weights G weight \<Longrightarrow> 0 \<le> path_weight G weight p"
  by (induction G weight p rule: path_weight.induct) (auto split: option.splits dest: nonneg_edge)

lemma path_weight_append:
  "path_weight G weight (q1 @ y # q2)
   = path_weight G weight (q1 @ [y]) + path_weight G weight (y # q2)"
  by (induction G weight q1 rule: path_weight.induct) (auto split: list.splits)

lemma is_path_prefix:
  "is_path G (q1 @ y # q2) \<Longrightarrow> is_path G (q1 @ [y])"
  by (induction G q1 rule: is_path.induct) (auto split: list.splits dest: is_path_nodes)

subsection \<open>Relaxation\<close>

lemma relax_entry_idem:
  "relax_entry w F v d p u (relax_entry w F v d p u old) = relax_entry w F v d p u old"
  by (auto simp: relax_entry_def split: option.splits)

lemma relax_apply:
  "relax w F v d p a seen u = (if u = a then relax_entry w F v d p u (seen u) else seen u)"
  by (simp add: relax_def)

lemma fold_relax:
  "fold (relax w F v d p) vs seen u
   = (if u \<in> set vs then relax_entry w F v d p u (seen u) else seen u)"
proof (induction vs arbitrary: seen)
  case Nil
  then show ?case by simp
next
  case (Cons a vs)
  then show ?case
    by (simp add: relax_apply relax_entry_idem)
qed

lemma relax_entry_no_edge: "w v u = None \<Longrightarrow> relax_entry w F v d p u old = old"
  by (simp add: relax_entry_def)

lemma fold_relax_nodes:
  "fold (relax (edge_weight G weight) F v d p) (nodes G) seen u
   = relax_entry (edge_weight G weight) F v d p u (seen u)"
proof (cases "u \<in> set (nodes G)")
  case True
  then show ?thesis by (simp add: fold_relax)
next
  case False
  then have "map_of G (v, u) = None"
    using edge_nodes(2) [of G v u] by (cases "map_of G (v, u)") auto
  then have "edge_weight G weight v u = None"
    by (simp add: edge_weight_def)
  with False show ?thesis
    by (simp add: fold_relax relax_entry_no_edge)
qed

lemma relax_entry_final: "u \<in> F \<Longrightarrow> relax_entry w F v d p u old = old"
  by (simp add: relax_entry_def split: option.splits)

lemma relax_entry_keeps:
  "old = Some (du, pu) \<Longrightarrow> \<exists>d' p'. relax_entry w F v d p u old = Some (d', p') \<and> d' \<le> du"
  by (auto simp: relax_entry_def split: option.splits)

lemma relax_entry_cases:
  assumes "relax_entry w F v d p u old = Some (d', p')"
  shows "old = Some (d', p') \<or> (\<exists>c. w v u = Some c \<and> u \<notin> F \<and> d' = d + c \<and> p' = p @ [u])"
  using assms by (auto simp: relax_entry_def split: option.splits if_splits)

lemma relax_entry_edge:
  assumes "w v u = Some c" and "u \<notin> F"
  shows "\<exists>d' p'. relax_entry w F v d p u old = Some (d', p') \<and> d' \<le> d + c"
  using assms by (cases old) (auto simp: relax_entry_def)

subsection \<open>The search keeps its invariant\<close>

lemma path_from_to_snoc:
  assumes "path_from_to G s v p" and "edge_weight G weight v u = Some c"
  shows "path_from_to G s u (p @ [u])"
    and "path_weight G weight (p @ [u]) = path_weight G weight p + c"
proof -
  from assms(1) have p: "is_path G p" "hd p = s" "last p = v"
    by (simp_all add: path_from_to_def)
  then have ne: "p \<noteq> []"
    by auto
  from assms(2) have "map_of G (last p, u) \<noteq> None"
    by (auto simp: p edge_weight_Some)
  with p(1) have "is_path G (p @ [u])"
    by (rule is_path_snoc)
  with p ne show "path_from_to G s u (p @ [u])"
    by (simp add: path_from_to_def)
  from ne assms(2) p(3) show "path_weight G weight (p @ [u]) = path_weight G weight p + c"
    by (simp add: path_weight_snoc)
qed

lemma search_inv_step:
  assumes inv: "search_inv G weight s final seen"
    and v: "seen v = Some (d, p)"
  shows "search_inv G weight s (insert v final)
           (fold (relax (edge_weight G weight) (insert v final) v d p) (nodes G) seen)"
proof -
  let ?w = "edge_weight G weight"
  let ?F = "insert v final"
  let ?seen = "fold (relax ?w ?F v d p) (nodes G) seen"
  have seen': "?seen u = relax_entry ?w ?F v d p u (seen u)" for u
    by (rule fold_relax_nodes)
  from inv v have pv: "path_from_to G s v p" "path_weight G weight p = d"
    by (auto simp: search_inv_def)
  have keeps: "?seen u \<noteq> None" if "seen u \<noteq> None" for u
    using that relax_entry_keeps [of "seen u" _ _ ?w ?F v d p u] by (auto simp: seen')
  have valid: "path_from_to G s u p' \<and> path_weight G weight p' = d'"
    if "?seen u = Some (d', p')" for u d' p'
  proof -
    from that have "relax_entry ?w ?F v d p u (seen u) = Some (d', p')"
      by (simp add: seen')
    then consider "seen u = Some (d', p')"
      | c where "?w v u = Some c" "d' = d + c" "p' = p @ [u]"
      by (auto dest: relax_entry_cases)
    then show ?thesis
    proof cases
      case 1
      with inv show ?thesis by (auto simp: search_inv_def)
    next
      case 2
      with path_from_to_snoc [OF pv(1) 2(1)] pv(2) show ?thesis by simp
    qed
  qed
  have closed: "?seen y \<noteq> None" if "x \<in> ?F" and "map_of G (x, y) \<noteq> None" for x y
  proof (cases "x = v")
    case False
    with that inv have "seen y \<noteq> None"
      by (auto simp: search_inv_def)
    then show ?thesis by (rule keeps)
  next
    case True
    with that obtain c where c: "?w v y = Some c"
      by (auto simp: edge_weight_def)
    show ?thesis
    proof (cases "y \<in> ?F")
      case False
      with c relax_entry_edge [of ?w v y c ?F d p "seen y"] show ?thesis
        by (auto simp: seen')
    next
      case True
      with inv v have "seen y \<noteq> None"
        by (auto simp: search_inv_def)
      then show ?thesis by (rule keeps)
    qed
  qed
  from inv have "seen s \<noteq> None"
    by (simp add: search_inv_def)
  then have "?seen s \<noteq> None"
    by (rule keeps)
  moreover have "?seen x \<noteq> None" if "x \<in> ?F" for x
  proof (rule keeps)
    from that inv v show "seen x \<noteq> None"
      by (cases "x = v") (simp_all add: search_inv_def)
  qed
  ultimately show ?thesis
    unfolding search_inv_def using valid closed by blast
qed

lemma search_inv_nodes:
  assumes "search_inv G weight s final seen" and "seen u = Some (d, p)"
  shows "u \<in> set (nodes G)"
proof -
  from assms have "is_path G p" and "last p = u"
    by (auto simp: search_inv_def path_from_to_def)
  moreover from this have "p \<noteq> []"
    by auto
  ultimately show ?thesis
    using is_path_nodes [of G p] last_in_set [of p] by auto
qed

lemma closed_path:
  "is_path G q \<Longrightarrow> hd q \<in> F \<Longrightarrow> (\<forall>x\<in>F. \<forall>y. map_of G (x, y) \<noteq> None \<longrightarrow> y \<in> F)
   \<Longrightarrow> set q \<subseteq> F"
  by (induction G q rule: is_path.induct) auto

lemma search_inv_exhausted:
  assumes inv: "search_inv G weight s final seen"
    and empty: "fringe (nodes G) final seen = []"
    and target: "target \<notin> final"
  shows "\<not> reachable G s target"
proof
  assume "reachable G s target"
  then obtain q where q: "is_path G q" "hd q = s" "last q = target"
    by (auto simp: reachable_def path_from_to_def)
  have settled: "u \<in> final" if "seen u \<noteq> None" for u
  proof (rule ccontr)
    assume "u \<notin> final"
    moreover from that obtain d p where u: "seen u = Some (d, p)"
      by auto
    moreover from inv u have "u \<in> set (nodes G)"
      by (rule search_inv_nodes)
    ultimately have "(u, d, p) \<in> set (fringe (nodes G) final seen)"
      by (simp add: fringe_set)
    with empty show False by simp
  qed
  from inv have "seen s \<noteq> None"
    by (simp add: search_inv_def)
  then have "s \<in> final"
    by (rule settled)
  then have "hd q \<in> final"
    by (simp only: q(2))
  moreover have "y \<in> final" if "x \<in> final" and "map_of G (x, y) \<noteq> None" for x y
  proof (rule settled)
    from inv that show "seen y \<noteq> None"
      unfolding search_inv_def by blast
  qed
  then have "\<forall>x\<in>final. \<forall>y. map_of G (x, y) \<noteq> None \<longrightarrow> y \<in> final"
    by blast
  ultimately have "set q \<subseteq> final"
    using q(1) by (simp add: closed_path)
  moreover from q(1) have "q \<noteq> []"
    by auto
  ultimately have "last q \<in> final"
    using last_in_set by blast
  with q(3) target show False by simp
qed

lemma arg_min_fringe:
  assumes "fringe vs final seen \<noteq> []"
    and "arg_min_list (\<lambda>(v, d, p). d) (fringe vs final seen) = (v, d, p)"
  shows "v \<in> set vs" and "v \<notin> final" and "seen v = Some (d, p)"
    and "\<forall>u du pu. u \<in> set vs \<longrightarrow> u \<notin> final \<longrightarrow> seen u = Some (du, pu) \<longrightarrow> d \<le> du"
proof -
  let ?f = "\<lambda>(v, d, p). d :: rat"
  let ?fr = "fringe vs final seen"
  from assms(1) have "arg_min_list ?f ?fr \<in> set ?fr"
    by (rule arg_min_list_in)
  with assms(2) show "v \<in> set vs" and "v \<notin> final" and "seen v = Some (d, p)"
    by (simp_all add: fringe_set)
  have "d \<le> du" if "u \<in> set vs" and "u \<notin> final" and "seen u = Some (du, pu)" for u du pu
  proof -
    from that have "(u, du, pu) \<in> set ?fr"
      by (simp add: fringe_set)
    then have "?f (u, du, pu) \<in> ?f ` set ?fr"
      by (rule imageI)
    then have "Min (?f ` set ?fr) \<le> ?f (u, du, pu)"
      by (intro Min_le) simp_all
    moreover from assms(1) have "?f (arg_min_list ?f ?fr) = Min (?f ` set ?fr)"
      by (rule f_arg_min_list_f)
    ultimately show ?thesis
      by (simp add: assms(2))
  qed
  then show "\<forall>u du pu. u \<in> set vs \<longrightarrow> u \<notin> final \<longrightarrow> seen u = Some (du, pu) \<longrightarrow> d \<le> du"
    by blast
qed

lemma dijkstra_loop_result:
  assumes "search_inv G weight s final seen" and "target \<notin> final"
  shows "case dijkstra_loop (edge_weight G weight) (nodes G) target final seen of
           Inl e \<Rightarrow> e = ValueError \<or> e = NetworkXNoPath \<and> \<not> reachable G s target
         | Inr (p, d) \<Rightarrow> path_from_to G s target p \<and> path_weight G weight p = d"
  using assms
proof (induction "length (filter (\<lambda>x. x \<notin> final) (nodes G))" arbitrary: final seen
    rule: less_induct)
  case less
  let ?fr = "fringe (nodes G) final seen"
  show ?case
  proof (cases "?fr = []")
    case True
    with less.prems show ?thesis
      by (subst dijkstra_loop.simps) (simp add: search_inv_exhausted)
  next
    case False
    obtain v d p where am: "arg_min_list (\<lambda>(v, d, p). d) ?fr = (v, d, p)"
      by (cases "arg_min_list (\<lambda>(v, d, p). d) ?fr")
    note v = arg_min_fringe(1-3) [OF False am]
    show ?thesis
    proof (cases "v = target")
      case True
      with less.prems(1) v(3) have "path_from_to G s target p \<and> path_weight G weight p = d"
        by (auto simp: search_inv_def)
      with False am True show ?thesis
        by (subst dijkstra_loop.simps) simp
    next
      case neq: False
      let ?seen = "fold (relax (edge_weight G weight) (insert v final) v d p) (nodes G) seen"
      from v(1,2) have "length (filter (\<lambda>x. x \<notin> insert v final) (nodes G))
          < length (filter (\<lambda>x. x \<notin> final) (nodes G))"
        by (rule filter_insert_less)
      moreover from less.prems(1) v(3) have "search_inv G weight s (insert v final) ?seen"
        by (rule search_inv_step)
      moreover from neq less.prems(2) have "target \<notin> insert v final"
        by auto
      ultimately have "case dijkstra_loop (edge_weight G weight) (nodes G) target
            (insert v final) ?seen of
          Inl e \<Rightarrow> e = ValueError \<or> e = NetworkXNoPath \<and> \<not> reachable G s target
        | Inr (p, d) \<Rightarrow> path_from_to G s target p \<and> path_weight G weight p = d"
        by (rule less.hyps)
      with False am neq show ?thesis
        by (subst dijkstra_loop.simps) simp
    qed
  qed
qed

subsection \<open>The settled weights are minimal\<close>

lemma least_entry_optimal:
  assumes nonneg: "nonneg_weights G weight"
    and inv: "search_inv G weight s final seen"
    and opt: "search_opt G weight s final seen"
    and v: "v \<notin> final" "seen v = Some (d, p)"
    and least: "\<forall>u du pu. u \<in> set (nodes G) \<longrightarrow> u \<notin> final \<longrightarrow> seen u = Some (du, pu)
        \<longrightarrow> d \<le> du"
    and q: "path_from_to G s v q"
  shows "d \<le> path_weight G weight q"
proof -
  from q have path: "is_path G q" and hd: "hd q = s" and last: "last q = v"
    by (simp_all add: path_from_to_def)
  then have "q \<noteq> []"
    by auto
  with last v(1) have "\<exists>x\<in>set q. x \<notin> final"
    using last_in_set by blast
  then obtain q1 y q2 where split: "q = q1 @ y # q2" and y: "y \<notin> final"
    and q1: "\<forall>x\<in>set q1. x \<in> final"
    by (auto dest!: split_list_first_prop)
  from path have py: "is_path G (q1 @ [y])"
    unfolding split by (rule is_path_prefix)
  then have y_node: "y \<in> set (nodes G)"
    using is_path_nodes by fastforce
  have "\<exists>dy py. seen y = Some (dy, py) \<and> dy \<le> path_weight G weight (q1 @ [y])"
  proof (cases q1 rule: rev_cases)
    case Nil
    with split hd have "y = s"
      by simp
    with opt Nil show ?thesis
      by (auto simp: search_opt_def)
  next
    case (snoc q1' x)
    with q1 have x: "x \<in> final"
      by simp
    from path have "is_path G (q1' @ x # y # q2)"
      by (simp add: split snoc)
    then have px: "is_path G (q1' @ [x])" and "is_path G (x # y # q2)"
      by (rule is_path_prefix, rule is_path_append)
    then obtain c where c: "edge_weight G weight x y = Some c"
      by (auto simp: edge_weight_def)
    from hd have "hd (q1' @ [x]) = s"
      by (cases q1') (simp_all add: split snoc)
    with px have q1_path: "path_from_to G s x q1"
      by (simp add: path_from_to_def snoc)
    from inv x obtain dx px where sx: "seen x = Some (dx, px)"
      by (auto simp: search_inv_def)
    with opt x q1_path have "dx \<le> path_weight G weight q1"
      unfolding search_opt_def by blast
    moreover from opt x sx c obtain dy py where "seen y = Some (dy, py)" and "dy \<le> dx + c"
      unfolding search_opt_def by blast
    moreover have "q1 \<noteq> []" and "last q1 = x"
      by (simp_all add: snoc)
    with c have "path_weight G weight (q1 @ [y]) = path_weight G weight q1 + c"
      by (simp add: path_weight_snoc)
    ultimately show ?thesis
      by auto
  qed
  then obtain dy py where sy: "seen y = Some (dy, py)"
    and dy: "dy \<le> path_weight G weight (q1 @ [y])"
    by blast
  from y_node y sy least have "d \<le> dy"
    by blast
  also note dy
  also have "path_weight G weight (q1 @ [y]) \<le> path_weight G weight q"
    using path_weight_nonneg [OF nonneg, of "y # q2"]
    by (simp add: split path_weight_append [of G weight q1 y q2])
  finally show ?thesis .
qed

lemma search_opt_step:
  assumes nonneg: "nonneg_weights G weight"
    and inv: "search_inv G weight s final seen"
    and opt: "search_opt G weight s final seen"
    and v: "v \<notin> final" "seen v = Some (d, p)"
    and least: "\<forall>u du pu. u \<in> set (nodes G) \<longrightarrow> u \<notin> final \<longrightarrow> seen u = Some (du, pu)
        \<longrightarrow> d \<le> du"
  shows "search_opt G weight s (insert v final)
           (fold (relax (edge_weight G weight) (insert v final) v d p) (nodes G) seen)"
proof -
  let ?w = "edge_weight G weight"
  let ?F = "insert v final"
  let ?seen = "fold (relax ?w ?F v d p) (nodes G) seen"
  have seen': "?seen u = relax_entry ?w ?F v d p u (seen u)" for u
    by (rule fold_relax_nodes)
  have settled: "?seen x = seen x" if "x \<in> ?F" for x
    using that by (simp only: seen' relax_entry_final)
  have lower: "\<exists>d' p'. ?seen u = Some (d', p') \<and> d' \<le> du" if "seen u = Some (du, pu)" for u du pu
    unfolding seen' using that by (rule relax_entry_keeps)
  from inv v(2) have pv: "path_from_to G s v p" "path_weight G weight p = d"
    by (auto simp: search_inv_def)
  have precise: "dx \<le> path_weight G weight q"
    if "x \<in> ?F" and "seen x = Some (dx, px)" and "path_from_to G s x q" for x dx px q
  proof (cases "x = v")
    case True
    with that v(2) have "dx = d" and "path_from_to G s v q"
      by simp_all
    with least_entry_optimal [OF nonneg inv opt v least] show ?thesis
      by simp
  next
    case False
    with that have "x \<in> final"
      by simp
    with opt that(2,3) show ?thesis
      unfolding search_opt_def by blast
  qed
  have source: "\<exists>d' p'. ?seen s = Some (d', p') \<and> d' \<le> 0"
  proof -
    from opt obtain ds ps where "seen s = Some (ds, ps)" and "ds \<le> 0"
      by (auto simp: search_opt_def)
    with lower [of s ds ps] show ?thesis
      by fastforce
  qed
  have relaxed: "\<exists>dy py. ?seen y = Some (dy, py) \<and> dy \<le> dx + c"
    if x: "x \<in> ?F" and sx: "?seen x = Some (dx, px)" and c: "?w x y = Some c" for x y dx px c
  proof -
    from x sx have sx': "seen x = Some (dx, px)"
      by (simp only: settled)
    show ?thesis
    proof (cases "x = v")
      case False
      with x have "x \<in> final"
        by simp
      with opt sx' c obtain dy py where "seen y = Some (dy, py)" and "dy \<le> dx + c"
        unfolding search_opt_def by blast
      with lower [of y dy py] show ?thesis
        by fastforce
    next
      case True
      with sx' v(2) have dx: "dx = d"
        by simp
      from c True have c': "?w v y = Some c"
        by simp
      show ?thesis
      proof (cases "y \<in> ?F")
        case False
        with c' relax_entry_edge [of ?w v y c ?F d p "seen y"] show ?thesis
          by (simp add: seen' dx)
      next
        case yF: True
        from inv v(2) yF obtain dy py where sy: "seen y = Some (dy, py)"
          by (cases "y = v") (auto simp: search_inv_def)
        from path_from_to_snoc [OF pv(1) c'] pv(2)
        have "path_from_to G s y (p @ [y])" and "path_weight G weight (p @ [y]) = d + c"
          by simp_all
        with precise [OF yF sy] have "dy \<le> d + c"
          by fastforce
        with yF sy show ?thesis
          by (simp add: settled dx)
      qed
    qed
  qed
  have "\<forall>x\<in>?F. \<forall>d p q. ?seen x = Some (d, p) \<longrightarrow> path_from_to G s x q
      \<longrightarrow> d \<le> path_weight G weight q"
    using precise settled by metis
  moreover have "\<forall>x\<in>?F. \<forall>y dx px c. ?seen x = Some (dx, px) \<longrightarrow> ?w x y = Some c
      \<longrightarrow> (\<exists>dy py. ?seen y = Some (dy, py) \<and> dy \<le> dx + c)"
    using relaxed by blast
  ultimately show ?thesis
    unfolding search_opt_def using source by blast
qed

lemma not_contradictory:
  assumes nonneg: "nonneg_weights G weight"
    and inv: "search_inv G weight s final seen"
    and opt: "search_opt G weight s final seen"
    and v: "seen v = Some (d, p)"
  shows "\<not> contradictory (edge_weight G weight) (nodes G) (insert v final) v d seen"
proof
  assume "contradictory (edge_weight G weight) (nodes G) (insert v final) v d seen"
  then obtain u c du pu where c: "edge_weight G weight v u = Some c"
    and u: "u \<in> insert v final" and su: "seen u = Some (du, pu)" and less: "d + c < du"
    by (auto simp: contradictory_def list_ex_iff split: option.splits)
  from nonneg c have "0 \<le> c"
    by (rule nonneg_edge)
  from inv v have "path_from_to G s v p" and "path_weight G weight p = d"
    by (auto simp: search_inv_def)
  with path_from_to_snoc [of G s v p weight u c] c
  have pu: "path_from_to G s u (p @ [u])" "path_weight G weight (p @ [u]) = d + c"
    by simp_all
  show False
  proof (cases "u = v")
    case True
    with su v less \<open>0 \<le> c\<close> show False
      by simp
  next
    case False
    with u have "u \<in> final"
      by simp
    with opt su pu(1) have "du \<le> path_weight G weight (p @ [u])"
      unfolding search_opt_def by blast
    with pu(2) less show False
      by simp
  qed
qed

lemma dijkstra_loop_no_contradiction:
  assumes "nonneg_weights G weight" and "search_inv G weight s final seen"
    and "search_opt G weight s final seen"
  shows "dijkstra_loop (edge_weight G weight) (nodes G) target final seen \<noteq> Inl ValueError"
  using assms
proof (induction "length (filter (\<lambda>x. x \<notin> final) (nodes G))" arbitrary: final seen
    rule: less_induct)
  case less
  let ?fr = "fringe (nodes G) final seen"
  show ?case
  proof (cases "?fr = []")
    case True
    then show ?thesis
      by (subst dijkstra_loop.simps) simp
  next
    case ne: False
    obtain v d p where am: "arg_min_list (\<lambda>(v, d, p). d) ?fr = (v, d, p)"
      by (cases "arg_min_list (\<lambda>(v, d, p). d) ?fr")
    note v = arg_min_fringe [OF ne am]
    let ?seen = "fold (relax (edge_weight G weight) (insert v final) v d p) (nodes G) seen"
    from v(1,2) have "length (filter (\<lambda>x. x \<notin> insert v final) (nodes G))
        < length (filter (\<lambda>x. x \<notin> final) (nodes G))"
      by (rule filter_insert_less)
    moreover note less.prems(1)
    moreover from less.prems(2) v(3) have "search_inv G weight s (insert v final) ?seen"
      by (rule search_inv_step)
    moreover from less.prems(1-3) v(2,3) v(4)
    have "search_opt G weight s (insert v final) ?seen"
      by (rule search_opt_step)
    ultimately have "dijkstra_loop (edge_weight G weight) (nodes G) target (insert v final) ?seen
        \<noteq> Inl ValueError"
      by (rule less.hyps)
    with ne am not_contradictory [OF less.prems v(3)] show ?thesis
      by (subst dijkstra_loop.simps) simp
  qed
qed

lemma dijkstra_loop_optimal:
  assumes "nonneg_weights G weight" and "search_inv G weight s final seen"
    and "search_opt G weight s final seen"
    and "dijkstra_loop (edge_weight G weight) (nodes G) target final seen = Inr (p, d)"
    and "path_from_to G s target q"
  shows "d \<le> path_weight G weight q"
  using assms
proof (induction "length (filter (\<lambda>x. x \<notin> final) (nodes G))" arbitrary: final seen
    rule: less_induct)
  case less
  let ?fr = "fringe (nodes G) final seen"
  have ne: "?fr \<noteq> []"
  proof
    assume "?fr = []"
    with less.prems(4) show False
      by (subst (asm) dijkstra_loop.simps) simp
  qed
  obtain v dv pv where am: "arg_min_list (\<lambda>(v, d, p). d) ?fr = (v, dv, pv)"
    by (cases "arg_min_list (\<lambda>(v, d, p). d) ?fr")
  note v = arg_min_fringe [OF ne am]
  show ?case
  proof (cases "v = target")
    case True
    with ne am less.prems(4) have "pv = p" and "dv = d"
      by (subst (asm) dijkstra_loop.simps, simp)+
    with True less.prems(5) least_entry_optimal [OF less.prems(1-3) v(2,3) v(4)]
    show ?thesis
      by simp
  next
    case False
    let ?seen = "fold (relax (edge_weight G weight) (insert v final) v dv pv) (nodes G) seen"
    from v(1,2) have "length (filter (\<lambda>x. x \<notin> insert v final) (nodes G))
        < length (filter (\<lambda>x. x \<notin> final) (nodes G))"
      by (rule filter_insert_less)
    moreover note less.prems(1)
    moreover from less.prems(2) v(3) have "search_inv G weight s (insert v final) ?seen"
      by (rule search_inv_step)
    moreover from less.prems(1-3) v(2,3) v(4)
    have "search_opt G weight s (insert v final) ?seen"
      by (rule search_opt_step)
    moreover from ne am False less.prems(4)
    have "dijkstra_loop (edge_weight G weight) (nodes G) target (insert v final) ?seen
        = Inr (p, d)"
      by (subst (asm) dijkstra_loop.simps) (simp split: if_splits)
    ultimately show ?thesis
      using less.prems(5) by (rule less.hyps)
  qed
qed

subsection \<open>The search from the source\<close>

lemma path_from_to_nodes:
  assumes "path_from_to G s t p"
  shows "s \<in> set (nodes G)" and "t \<in> set (nodes G)"
proof -
  from assms have p: "is_path G p" "hd p = s" "last p = t"
    by (simp_all add: path_from_to_def)
  then have "p \<noteq> []"
    by auto
  with p show "s \<in> set (nodes G)" and "t \<in> set (nodes G)"
    using is_path_nodes [of G p] hd_in_set [of p] last_in_set [of p] by auto
qed

lemma search_inv_init:
  assumes "s \<in> set (nodes G)"
  shows "search_inv G weight s {} [s \<mapsto> (0, [s])]"
  using assms by (simp add: search_inv_def path_from_to_def)

lemma search_opt_init: "search_opt G weight s {} [s \<mapsto> (0, [s])]"
  by (simp add: search_opt_def)

lemma dijkstra_result:
  assumes "s \<in> set (nodes G)" and "t \<in> set (nodes G)"
  shows "case dijkstra G s t weight of
      Inl e \<Rightarrow> e = ValueError \<or> e = NetworkXNoPath \<and> \<not> reachable G s t
    | Inr (p, d) \<Rightarrow> path_from_to G s t p \<and> path_weight G weight p = d"
proof -
  from assms(1) have "search_inv G weight s {} [s \<mapsto> (0, [s])]"
    by (rule search_inv_init)
  then have "case dijkstra_loop (edge_weight G weight) (nodes G) t {} [s \<mapsto> (0, [s])] of
      Inl e \<Rightarrow> e = ValueError \<or> e = NetworkXNoPath \<and> \<not> reachable G s t
    | Inr (p, d) \<Rightarrow> path_from_to G s t p \<and> path_weight G weight p = d"
    by (rule dijkstra_loop_result) simp
  with assms show ?thesis
    by (simp add: dijkstra_def)
qed

lemma dijkstra_no_contradiction:
  assumes "nonneg_weights G weight"
  shows "dijkstra G s t weight \<noteq> Inl ValueError"
proof (cases "s \<in> set (nodes G) \<and> t \<in> set (nodes G)")
  case True
  from True have "search_inv G weight s {} [s \<mapsto> (0, [s])]"
    by (simp add: search_inv_init)
  with assms have "dijkstra_loop (edge_weight G weight) (nodes G) t {} [s \<mapsto> (0, [s])]
      \<noteq> Inl ValueError"
    using search_opt_init by (rule dijkstra_loop_no_contradiction)
  with True show ?thesis
    by (simp add: dijkstra_def)
next
  case False
  then show ?thesis
    by (auto simp: dijkstra_def)
qed

lemma dijkstra_unreachable:
  assumes "nonneg_weights G weight"
    and "s \<in> set (nodes G)" and "t \<in> set (nodes G)" and "\<not> reachable G s t"
  shows "dijkstra G s t weight = Inl NetworkXNoPath"
  using dijkstra_result [OF assms(2,3), of weight] dijkstra_no_contradiction [OF assms(1), of s t]
    assms(4)
  by (cases "dijkstra G s t weight") (auto simp: reachable_def)

lemma dijkstra_reachable:
  assumes "nonneg_weights G weight" and "reachable G s t"
  shows "\<exists>p d. dijkstra G s t weight = Inr (p, d) \<and> path_from_to G s t p
    \<and> path_weight G weight p = d"
proof -
  from assms(2) have nodes: "s \<in> set (nodes G)" "t \<in> set (nodes G)"
    by (auto simp: reachable_def dest: path_from_to_nodes)
  with dijkstra_result [OF nodes, of weight] dijkstra_no_contradiction [OF assms(1), of s t]
    assms(2)
  show ?thesis
    by (cases "dijkstra G s t weight") auto
qed

lemma dijkstra_minimal:
  assumes "nonneg_weights G weight" and "dijkstra G s t weight = Inr (p, d)"
    and "path_from_to G s t q"
  shows "d \<le> path_weight G weight q"
proof -
  from assms(3) have nodes: "s \<in> set (nodes G)" "t \<in> set (nodes G)"
    by (rule path_from_to_nodes)+
  with assms(2)
  have "dijkstra_loop (edge_weight G weight) (nodes G) t {} [s \<mapsto> (0, [s])] = Inr (p, d)"
    by (simp add: dijkstra_def)
  with assms(1) search_inv_init [OF nodes(1)] search_opt_init show ?thesis
    using assms(3) by (rule dijkstra_loop_optimal)
qed

subsection \<open>The two queries\<close>

lemma calculate_min_emission_path_dijkstra:
  "fst (calculate_min_emission_path self s t) = query_result (dijkstra (graph self) s t emission)"
  by (simp add: calculate_min_emission_path_def shortest_path_def shortest_path_length_def
      query_result_def split: sum.splits prod.splits)

lemma calculate_min_cost_path_dijkstra:
  "fst (calculate_min_cost_path self s t) = query_result (dijkstra (graph self) s t cost)"
  by (simp add: calculate_min_cost_path_def shortest_path_def shortest_path_length_def
      query_result_def split: sum.splits prod.splits)

lemma query_result_unreachable:
  assumes "nonneg_weights G weight"
    and "s \<in> set (nodes G)" and "t \<in> set (nodes G)" and "\<not> reachable G s t"
  shows "query_result (dijkstra G s t weight) = Inr ([], Infinity)"
  using dijkstra_unreachable [OF assms] by (simp add: query_result_def except_no_path_def)

lemma query_result_minimal:
  assumes "nonneg_weights G weight" and "reachable G s t"
  shows "\<exists>p d. query_result (dijkstra G s t weight) = Inr (p, Finite d)
    \<and> path_from_to G s t p \<and> path_weight G weight p = d
    \<and> (\<forall>q. path_from_to G s t q \<longrightarrow> d \<le> path_weight G weight q)"
proof -
  from dijkstra_reachable [OF assms]
  obtain p d where r: "dijkstra G s t weight = Inr (p, d)"
    and p: "path_from_to G s t p" "path_weight G weight p = d"
    by blast
  from assms(1) r have "\<forall>q. path_from_to G s t q \<longrightarrow> d \<le> path_weight G weight q"
    by (blast intro: dijkstra_minimal)
  with r p show ?thesis
    by (simp add: query_result_def)
qed

lemma main_routes_graph:
  "graph main_routes =
     [((''A'', ''B''), \<lparr>distance = 100, emission = 10, cost = 100\<rparr>),
      ((''B'', ''C''), \<lparr>distance = 50, emission = 10, cost = 25\<rparr>),
      ((''A'', ''C''), \<lparr>distance = 140, emission = 21, cost = 119\<rparr>),
      ((''C'', ''D''), \<lparr>distance = 60, emission = 54 / 5, cost = 54\<rparr>)]"
  by (simp add: main_routes_def add_route_def add_edge_def init_def)

lemma main_routes_nodes: "nodes (graph main_routes) = [''A'', ''B'', ''C'', ''D'']"
  by (simp add: main_routes_graph nodes_def add_node_def)

lemma main_routes_no_way_back: "\<not> reachable (graph main_routes) ''D'' ''A''"
proof
  assume "reachable (graph main_routes) ''D'' ''A''"
  then obtain p where p: "is_path (graph main_routes) p" "hd p = ''D''" "last p = ''A''"
    by (auto simp: reachable_def path_from_to_def)
  show False
  proof (cases p)
    case Nil
    with p(1) show False by simp
  next
    case (Cons x r)
    show False
    proof (cases r)
      case Nil
      with Cons p(2,3) show False by simp
    next
      case (Cons y r')
      with \<open>p = x # r\<close> p(1,2) show False
        by (simp add: main_routes_graph)
    qed
  qed
qed

lemma loop_routes_graph:
  "graph loop_routes =
     [((''D'', ''A''), \<lparr>distance = 1, emission = 1, cost = 1\<rparr>),
      ((''A'', ''A''), \<lparr>distance = 1, emission = - 1, cost = 1\<rparr>)]"
  by (simp add: loop_routes_def add_route_def add_edge_def init_def)

lemma loop_routes_nodes: "nodes (graph loop_routes) = [''D'', ''A'']"
  by (simp add: loop_routes_graph nodes_def add_node_def)

lemma loop_routes_no_way_out: "\<not> reachable (graph loop_routes) ''A'' ''D''"
proof
  assume "reachable (graph loop_routes) ''A'' ''D''"
  then obtain q where q: "is_path (graph loop_routes) q" "hd q = ''A''" "last q = ''D''"
    by (auto simp: reachable_def path_from_to_def)
  have "\<forall>x\<in>{''A''}. \<forall>y. map_of (graph loop_routes) (x, y) \<noteq> None \<longrightarrow> y \<in> {''A''}"
    by (simp add: loop_routes_graph)
  with q(1,2) have "set q \<subseteq> {''A''}"
    by (intro closed_path) simp_all
  moreover from q(1) have "q \<noteq> []"
    by auto
  ultimately have "last q = ''A''"
    using last_in_set by blast
  with q(3) show False
    by simp
qed

lemma detour_routes_graph:
  "graph detour_routes =
     [((''A'', ''D''), \<lparr>distance = 1, emission = 1, cost = 1\<rparr>),
      ((''A'', ''B''), \<lparr>distance = 1, emission = 5, cost = 1\<rparr>),
      ((''B'', ''C''), \<lparr>distance = 1, emission = - 10, cost = 1\<rparr>),
      ((''C'', ''D''), \<lparr>distance = 1, emission = 5, cost = 1\<rparr>)]"
  by (simp add: detour_routes_def add_route_def add_edge_def init_def)

subsection \<open>The claims about the queries\<close>

text \<open>
  C1. The claim: on the graph of the four routes A to B (100, 0.1, 1.0), B to C
  (50, 0.2, 0.5), A to C (140, 0.15, 0.85) and C to D (60, 0.18, 0.9) the minimum-emission
  query from A to D returns the path A, C, D with total 31.8. It does not: the route over B
  emits 10 + 10 = 20 from A to C, less than the 21 of the direct edge.
\<close>

theorem main_routes_emission_not_via_direct_edge:
  "fst (calculate_min_emission_path main_routes ''A'' ''D'')
   \<noteq> Inr ([''A'', ''C'', ''D''], Finite (318 / 10))"
  by code_simp

text \<open>
  C1, as amended: on that graph the minimum-emission query from A to D returns the path
  A, B, C, D with total emission 100 * 0.1 + 50 * 0.2 + 60 * 0.18 = 30.8.
\<close>

theorem main_routes_min_emission_path:
  "fst (calculate_min_emission_path main_routes ''A'' ''D'')
   = Inr ([''A'', ''B'', ''C'', ''D''], Finite (308 / 10))"
  by code_simp

text \<open>
  C5. The claim: whenever the target cannot be reached from the source, both queries return
  the empty path and infinity, and raise nothing. That fails in two ways. When the source is
  not a node of the graph, the library raises \<open>NodeNotFound\<close>: the node E is not in the
  graph of \<open>main\<close>. When the graph has a negative weight, the library may raise
  \<open>ValueError\<close>: the loop at A that emits -1 contradicts the weight 0 of A. The \<open>except\<close>
  clause catches neither.
\<close>

theorem unreachable_raises:
  "(\<not> reachable (graph main_routes) ''E'' ''A''
    \<and> fst (calculate_min_emission_path main_routes ''E'' ''A'') = Inl NodeNotFound)
   \<and> (''A'' \<in> set (nodes (graph loop_routes)) \<and> ''D'' \<in> set (nodes (graph loop_routes))
    \<and> \<not> reachable (graph loop_routes) ''A'' ''D''
    \<and> fst (calculate_min_emission_path loop_routes ''A'' ''D'') = Inl ValueError)"
proof -
  have "\<not> reachable (graph main_routes) ''E'' ''A''"
    by (auto simp: reachable_def main_routes_nodes dest: path_from_to_nodes)
  moreover have "fst (calculate_min_emission_path main_routes ''E'' ''A'') = Inl NodeNotFound"
    by (simp add: calculate_min_emission_path_def shortest_path_def dijkstra_def
        main_routes_nodes except_no_path_def)
  moreover have "''A'' \<in> set (nodes (graph loop_routes))"
    and "''D'' \<in> set (nodes (graph loop_routes))"
    by (simp_all add: loop_routes_nodes)
  moreover have "\<not> reachable (graph loop_routes) ''A'' ''D''"
    by (rule loop_routes_no_way_out)
  moreover have "fst (calculate_min_emission_path loop_routes ''A'' ''D'') = Inl ValueError"
    by code_simp
  ultimately show ?thesis
    by blast
qed

text \<open>
  C5, as amended: on a graph whose emissions and costs are not negative, when source and
  target are both nodes of the graph and the target cannot be reached from the source, both
  queries return the empty path and infinity, and raise nothing.
\<close>

theorem unreachable_gives_sentinel:
  assumes "nonneg_weights (graph self) emission" and "nonneg_weights (graph self) cost"
    and "source \<in> set (nodes (graph self))" and "target \<in> set (nodes (graph self))"
    and "\<not> reachable (graph self) source target"
  shows "fst (calculate_min_emission_path self source target) = Inr ([], Infinity)
    \<and> fst (calculate_min_cost_path self source target) = Inr ([], Infinity)"
  using assms
  by (simp add: calculate_min_emission_path_dijkstra calculate_min_cost_path_dijkstra
      query_result_unreachable)

theorem unreachable_gives_sentinel_witness:
  "nonneg_weights (graph main_routes) emission \<and> nonneg_weights (graph main_routes) cost
   \<and> ''D'' \<in> set (nodes (graph main_routes)) \<and> ''A'' \<in> set (nodes (graph main_routes))
   \<and> \<not> reachable (graph main_routes) ''D'' ''A''
   \<and> fst (calculate_min_emission_path main_routes ''D'' ''A'') = Inr ([], Infinity)
   \<and> fst (calculate_min_cost_path main_routes ''D'' ''A'') = Inr ([], Infinity)"
proof -
  have e: "nonneg_weights (graph main_routes) emission"
    and c: "nonneg_weights (graph main_routes) cost"
    by (simp_all add: nonneg_weights_def main_routes_graph)
  have D: "''D'' \<in> set (nodes (graph main_routes))"
    and A: "''A'' \<in> set (nodes (graph main_routes))"
    by (simp_all add: main_routes_nodes)
  from unreachable_gives_sentinel [OF e c D A main_routes_no_way_back]
    e c D A main_routes_no_way_back
  show ?thesis
    by simp
qed

text \<open>
  C6. The claim: whenever the target can be reached from the source, the path that a query
  returns weighs no more than any other path from the source to the target. That fails on a
  graph with a negative weight: the search settles D over the direct route of emission 1
  and stops, and never sees the detour over B and C of emission 0.
\<close>

theorem detour_routes_not_minimal:
  "reachable (graph detour_routes) ''A'' ''D''
   \<and> fst (calculate_min_emission_path detour_routes ''A'' ''D'') = Inr ([''A'', ''D''], Finite 1)
   \<and> path_from_to (graph detour_routes) ''A'' ''D'' [''A'', ''B'', ''C'', ''D'']
   \<and> path_weight (graph detour_routes) emission [''A'', ''B'', ''C'', ''D''] = 0"
proof -
  have p: "path_from_to (graph detour_routes) ''A'' ''D'' [''A'', ''B'', ''C'', ''D'']"
    by (simp add: path_from_to_def detour_routes_graph nodes_def add_node_def)
  then have "reachable (graph detour_routes) ''A'' ''D''"
    unfolding reachable_def by (rule exI)
  moreover have "fst (calculate_min_emission_path detour_routes ''A'' ''D'')
      = Inr ([''A'', ''D''], Finite 1)"
    by code_simp
  moreover have "path_weight (graph detour_routes) emission [''A'', ''B'', ''C'', ''D''] = 0"
    by (simp add: detour_routes_graph edge_weight_def)
  ultimately show ?thesis
    using p by blast
qed

text \<open>
  C6, as amended: on a graph whose emissions and costs are not negative, whenever the target
  can be reached from the source, the minimum-emission query returns a path from the source
  to the target together with its total emission, and no path from the source to the target
  has a smaller total emission; the same holds for the minimum-cost query and the cost.
  A graph that is built with \<open>add_route\<close> from distances and factors that are not negative
  is such a graph (\<open>init_nonneg_weights\<close>, \<open>add_route_nonneg_weights\<close>).
\<close>

theorem min_paths_minimal:
  assumes "nonneg_weights (graph self) emission" and "nonneg_weights (graph self) cost"
    and "reachable (graph self) source target"
  shows "(\<exists>p d. fst (calculate_min_emission_path self source target) = Inr (p, Finite d)
      \<and> path_from_to (graph self) source target p \<and> path_weight (graph self) emission p = d
      \<and> (\<forall>q. path_from_to (graph self) source target q
            \<longrightarrow> d \<le> path_weight (graph self) emission q))
    \<and> (\<exists>p d. fst (calculate_min_cost_path self source target) = Inr (p, Finite d)
      \<and> path_from_to (graph self) source target p \<and> path_weight (graph self) cost p = d
      \<and> (\<forall>q. path_from_to (graph self) source target q
            \<longrightarrow> d \<le> path_weight (graph self) cost q))"
  unfolding calculate_min_emission_path_dijkstra calculate_min_cost_path_dijkstra
  using assms by (simp only: query_result_minimal simp_thms)

theorem min_paths_minimal_witness:
  "nonneg_weights (graph main_routes) emission \<and> nonneg_weights (graph main_routes) cost
   \<and> reachable (graph main_routes) ''A'' ''D''
   \<and> (\<exists>p d. fst (calculate_min_emission_path main_routes ''A'' ''D'') = Inr (p, Finite d)
      \<and> path_from_to (graph main_routes) ''A'' ''D'' p
      \<and> path_weight (graph main_routes) emission p = d
      \<and> (\<forall>q. path_from_to (graph main_routes) ''A'' ''D'' q
            \<longrightarrow> d \<le> path_weight (graph main_routes) emission q))
   \<and> (\<exists>p d. fst (calculate_min_cost_path main_routes ''A'' ''D'') = Inr (p, Finite d)
      \<and> path_from_to (graph main_routes) ''A'' ''D'' p
      \<and> path_weight (graph main_routes) cost p = d
      \<and> (\<forall>q. path_from_to (graph main_routes) ''A'' ''D'' q
            \<longrightarrow> d \<le> path_weight (graph main_routes) cost q))"
proof -
  have e: "nonneg_weights (graph main_routes) emission"
    and c: "nonneg_weights (graph main_routes) cost"
    by (simp_all add: nonneg_weights_def main_routes_graph)
  have "path_from_to (graph main_routes) ''A'' ''D'' [''A'', ''C'', ''D'']"
    by (simp add: path_from_to_def main_routes_nodes) (simp add: main_routes_graph)
  then have r: "reachable (graph main_routes) ''A'' ''D''"
    unfolding reachable_def by (rule exI)
  from min_paths_minimal [OF e c r] e c r show ?thesis
    by blast
qed

section \<open>Properties of the methods on the heap\<close>














lemma unchanged_length: "unchanged h h' \<Longrightarrow> length h \<le> length h'"
  by (metis unchanged_def length_take min.cobounded2 min_def nat_le_linear)









lemma init_heap_empty: "init_heap [] = (1, [DiGraphObj [], OptimizerObj 0])"
  by (simp add: init_heap_def new_def)



end
